theory Spec2Isabelle
  imports Complex_Main "HOL-Library.Word" "HOL-Library.Log_Nat"
begin

section \<open>Pixel / angle conversions of image-to-body-math\<close>

text \<open>
  The embedding follows \<^verbatim>\<open>types.hpp\<close> and the conversion header of namespace
  \<^verbatim>\<open>p2b\<close> function by function.

  Numbers. A \<^verbatim>\<open>uint64_t\<close> is a \<^typ>\<open>64 word\<close>. A finite \<^verbatim>\<open>double\<close> is the
  real number it denotes, and every operation of the code that rounds does so here as
  well: \<open>rnd\<close> takes the exact result to the nearest binary64 value (53 significant
  bits, halfway cases to the even significand, gradual underflow below \<open>2 ^ -1022\<close>),
  which is what IEEE 754 prescribes for \<open>+\<close>, \<open>-\<close>, \<open>*\<close>, \<open>/\<close> and for the conversion of an
  integer. The model has no NaN and no infinity: a division is only looked at under
  the hypothesis that its divisor is not zero (in HOL \<open>x / 0 = 0\<close>), and a result whose
  rounded magnitude reaches \<open>2 ^ 1024\<close>, an infinity in the code, is excluded by
  hypothesis wherever a statement names its value.
\<close>

subsection \<open>Rounding to binary64\<close>

text \<open>\<open>ilog2 x\<close> is the exponent of the binade of a positive \<open>x\<close>: \<open>2 ^ ilog2 x \<le> x < 2 ^ (ilog2 x + 1)\<close>.\<close>

definition ilog2 :: "real \<Rightarrow> int" where
  "ilog2 x = (if 1 \<le> x then bitlen \<lfloor>x\<rfloor> - 1 else - bitlen (\<lceil>1 / x\<rceil> - 1))"

text \<open>The nearest integer, halfway cases to the even one.\<close>

definition round_even :: "real \<Rightarrow> int" where
  "round_even y =
     (let f = \<lfloor>y\<rfloor>; d = y - of_int f
      in if d < 1 / 2 then f else if 1 / 2 < d then f + 1 else if even f then f else f + 1)"

text \<open>
  The exponent of the unit in the last place at \<open>x\<close>: 52 below the binade, and never
  below \<open>-1074\<close>, the exponent of the smallest subnormal.
\<close>

definition ulp_exp :: "real \<Rightarrow> int" where
  "ulp_exp x = max (ilog2 \<bar>x\<bar> - 52) (- 1074)"

definition rnd :: "real \<Rightarrow> real" where
  "rnd x = (if x = 0 then 0
            else of_int (round_even (x / 2 powi ulp_exp x)) * 2 powi ulp_exp x)"

definition is_double :: "real \<Rightarrow> bool" where
  "is_double x \<longleftrightarrow> rnd x = x"

text \<open>The four arithmetic operators of the code on \<^verbatim>\<open>double\<close>.\<close>

definition fadd :: "real \<Rightarrow> real \<Rightarrow> real" where
  "fadd x y = rnd (x + y)"

definition fsub :: "real \<Rightarrow> real \<Rightarrow> real" where
  "fsub x y = rnd (x - y)"

definition fmul :: "real \<Rightarrow> real \<Rightarrow> real" where
  "fmul x y = rnd (x * y)"

definition fdiv :: "real \<Rightarrow> real \<Rightarrow> real" where
  "fdiv x y = rnd (x / y)"

subsection \<open>Conversions between \<^verbatim>\<open>uint64_t\<close> and \<^verbatim>\<open>double\<close>, and the library functions\<close>

type_synonym u64 = "64 word"

text \<open>
  \<^verbatim>\<open>static_cast<double>(n)\<close> for an unsigned 64-bit \<open>n\<close>: exact up to \<open>2 ^ 53\<close>,
  rounded to the nearest \<^verbatim>\<open>double\<close> above.
\<close>

definition u64_to_double :: "u64 \<Rightarrow> real" where
  "u64_to_double n = rnd (real (unat n))"

text \<open>
  \<^verbatim>\<open>std::round\<close>: the nearest integral value, halfway cases away from zero. (HOL's own
  \<^const>\<open>round\<close> sends halfway cases upwards, so it is not used.) The result of
  \<^verbatim>\<open>std::round\<close> on a \<^verbatim>\<open>double\<close> is a \<^verbatim>\<open>double\<close> again (\<open>is_double_std_round\<close> below),
  so nothing is rounded a second time.
\<close>

definition std_round :: "real \<Rightarrow> real" where
  "std_round x = (if 0 \<le> x then of_int \<lfloor>x + 1 / 2\<rfloor> else of_int \<lceil>x - 1 / 2\<rceil>)"

text \<open>The integral part of a \<^verbatim>\<open>double\<close>: truncation toward zero.\<close>

definition trunc_toward_zero :: "real \<Rightarrow> int" where
  "trunc_toward_zero x = (if 0 \<le> x then \<lfloor>x\<rfloor> else \<lceil>x\<rceil>)"

text \<open>
  \<^verbatim>\<open>static_cast<uint64_t>(x)\<close> for a \<^verbatim>\<open>double\<close> \<open>x\<close>: the fractional part is
  discarded. C++ defines the result when the truncated value fits the type, that is for
  \<open>-1 < x < 2 ^ 64\<close>. Outside that range the conversion is undefined and builds differ;
  the definition wraps modulo \<open>2 ^ 64\<close> there, and no statement below depends on which
  value it takes outside the range.
\<close>

definition double_to_u64 :: "real \<Rightarrow> u64" where
  "double_to_u64 x = word_of_int (trunc_toward_zero x)"


subsection \<open>\<^verbatim>\<open>types.hpp\<close>\<close>

record ImageSize =
  width :: u64
  height :: u64

definition half_width :: "ImageSize \<Rightarrow> real" where
  "half_width s = fdiv (u64_to_double (width s)) 2"

definition half_height :: "ImageSize \<Rightarrow> real" where
  "half_height s = fdiv (u64_to_double (height s)) 2"

datatype PixelIndex = PixelIndex (pixel_value: u64)

definition normalized :: "PixelIndex \<Rightarrow> ImageSize \<Rightarrow> real" where
  "normalized p s = fsub (fdiv (u64_to_double (pixel_value p)) (half_width s)) 1"

subsection \<open>The angle type\<close>

text \<open>
  Modelled from the spec: \<^verbatim>\<open>linalg3d::Angle\<close>, the unit-tagged angle that the conversion
  header includes and that is not among the sources. \<open>Radians\<close> and \<open>Degrees\<close> are
  its two variants, each constructed from a raw magnitude; \<open>angle_value\<close> is the
  accessor \<^verbatim>\<open>value()\<close>, which is also what \<^verbatim>\<open>std::tan\<close> receives when it is
  handed an angle. The arithmetic of the angle type is taken as the spec words it,
  without a rounding step of its own.
\<close>

datatype Radians = Radians (angle_value: real)




subsection \<open>The conversion functions\<close>


definition pixel_tan_by_pixel_2_tan :: "PixelIndex \<Rightarrow> ImageSize \<Rightarrow> real \<Rightarrow> real" where
  "pixel_tan_by_pixel_2_tan pixel image_size pixel_2_tan =
     fmul (fsub (u64_to_double (pixel_value pixel)) (half_width image_size)) pixel_2_tan"

definition angle_tan_to_pixel :: "Radians \<Rightarrow> ImageSize \<Rightarrow> real \<Rightarrow> PixelIndex" where
  "angle_tan_to_pixel angle_t image_size pixel_2_tan =
     PixelIndex (double_to_u64
       (std_round (fadd (fdiv (angle_value angle_t) pixel_2_tan) (half_width image_size))))"

definition pixel_tan_by_pixel_2_tan_clipped ::
    "PixelIndex \<Rightarrow> ImageSize \<Rightarrow> real \<Rightarrow> real \<Rightarrow> real" where
  "pixel_tan_by_pixel_2_tan_clipped pixel image_size pixel_2_tan clipping_threshold =
     (let diff = \<bar>fsub (u64_to_double (pixel_value pixel)) (half_width image_size)\<bar>
      in if diff < fmul clipping_threshold (half_width image_size) then 0
         else fmul (fsub (u64_to_double (pixel_value pixel)) (half_width image_size))
                pixel_2_tan)"

definition tan_2_pixel_by_pixel_2_tan ::
    "Radians \<Rightarrow> ImageSize \<Rightarrow> real \<Rightarrow> bool \<Rightarrow> PixelIndex" where
  "tan_2_pixel_by_pixel_2_tan pixel_t image_size pixel_2_tan round_back =
     (let pixel_v = fadd (fdiv (angle_value pixel_t) pixel_2_tan) (half_width image_size);
          pixel_w = (if round_back then double_to_u64 (std_round pixel_v)
                     else double_to_u64 pixel_v)
      in PixelIndex pixel_w)"

section \<open>Properties of the rounding\<close>

subsection \<open>The binade of a positive real\<close>

lemma two_powi_less_cancel:
  assumes "(2::real) powi a < 2 powi b"
  shows "a < b"
proof (rule ccontr)
  assume "\<not> a < b"
  then have "b \<le> a" by simp
  then have "(2::real) powi b \<le> 2 powi a"
    by (rule power_int_increasing) simp
  with assms show False by simp
qed

lemma ilog2_lower:
  assumes "0 < x"
  shows "2 powi ilog2 x \<le> x"
proof (cases "1 \<le> x")
  case True
  let ?m = "\<lfloor>x\<rfloor>"
  have m: "0 < ?m" using True by simp
  have b1: "1 \<le> bitlen ?m"
    using m by (simp add: bitlen_alt_def)
  have "2 ^ nat (bitlen ?m - 1) \<le> ?m"
    using bitlen_bounds [OF m] by blast
  then have "real_of_int (2 ^ nat (bitlen ?m - 1)) \<le> real_of_int ?m"
    by (simp only: of_int_le_iff)
  then have "(2::real) ^ nat (bitlen ?m - 1) \<le> real_of_int ?m"
    by (simp only: of_int_power of_int_numeral)
  then have "(2::real) ^ nat (bitlen ?m - 1) \<le> x"
    using of_int_floor_le [of x] by linarith
  moreover have "ilog2 x = bitlen ?m - 1"
    using True by (simp add: ilog2_def)
  ultimately show ?thesis
    using b1 by (simp add: power_int_nonneg_exp)
next
  case False
  let ?y = "1 / x"
  let ?m = "\<lceil>?y\<rceil> - 1"
  have y: "1 < ?y" using False assms by simp
  have m: "0 < ?m" using y by linarith
  have "?m < 2 ^ nat (bitlen ?m)"
    using bitlen_bounds [OF m] by blast
  then have "?m + 1 \<le> 2 ^ nat (bitlen ?m)" by simp
  then have "real_of_int (?m + 1) \<le> real_of_int (2 ^ nat (bitlen ?m))"
    by (simp only: of_int_le_iff)
  then have "real_of_int (?m + 1) \<le> (2::real) ^ nat (bitlen ?m)"
    by (simp only: of_int_power of_int_numeral)
  moreover have "?y \<le> real_of_int (?m + 1)" by simp
  ultimately have "?y \<le> 2 ^ nat (bitlen ?m)" by linarith
  then have "1 / 2 ^ nat (bitlen ?m) \<le> x"
    using assms by (simp add: field_simps)
  moreover have "ilog2 x = - bitlen ?m"
    using False by (simp add: ilog2_def)
  ultimately show ?thesis
    using bitlen_nonneg [of ?m]
    by (simp add: power_int_minus power_int_nonneg_exp field_simps)
qed

lemma ilog2_upper:
  assumes "0 < x"
  shows "x < 2 powi (ilog2 x + 1)"
proof (cases "1 \<le> x")
  case True
  let ?m = "\<lfloor>x\<rfloor>"
  have m: "0 < ?m" using True by simp
  have "?m < 2 ^ nat (bitlen ?m)"
    using bitlen_bounds [OF m] by blast
  then have "?m + 1 \<le> 2 ^ nat (bitlen ?m)" by simp
  then have "real_of_int (?m + 1) \<le> real_of_int (2 ^ nat (bitlen ?m))"
    by (simp only: of_int_le_iff)
  then have "real_of_int (?m + 1) \<le> (2::real) ^ nat (bitlen ?m)"
    by (simp only: of_int_power of_int_numeral)
  moreover have "x < real_of_int (?m + 1)" by linarith
  ultimately have "x < 2 ^ nat (bitlen ?m)" by linarith
  moreover have "ilog2 x + 1 = bitlen ?m"
    using True by (simp add: ilog2_def)
  ultimately show ?thesis
    using bitlen_nonneg [of ?m] by (simp add: power_int_nonneg_exp)
next
  case False
  let ?y = "1 / x"
  let ?m = "\<lceil>?y\<rceil> - 1"
  have y: "1 < ?y" using False assms by simp
  have m: "0 < ?m" using y by linarith
  have b1: "1 \<le> bitlen ?m"
    using m by (simp add: bitlen_alt_def)
  have "2 ^ nat (bitlen ?m - 1) \<le> ?m"
    using bitlen_bounds [OF m] by blast
  then have "real_of_int (2 ^ nat (bitlen ?m - 1)) \<le> real_of_int ?m"
    by (simp only: of_int_le_iff)
  then have "(2::real) ^ nat (bitlen ?m - 1) \<le> real_of_int ?m"
    by (simp only: of_int_power of_int_numeral)
  moreover have "real_of_int ?m < ?y" by linarith
  ultimately have "2 ^ nat (bitlen ?m - 1) < ?y" by linarith
  then have "x < 1 / 2 ^ nat (bitlen ?m - 1)"
    using assms by (simp add: field_simps)
  moreover have "ilog2 x + 1 = - (bitlen ?m - 1)"
    using False by (simp add: ilog2_def)
  ultimately show ?thesis
    using b1 by (simp only: power_int_minus power_int_nonneg_exp) (simp add: field_simps)
qed

lemma ilog2_unique:
  assumes "0 < x" and "2 powi e \<le> x" and "x < 2 powi (e + 1)"
  shows "ilog2 x = e"
proof -
  have "(2::real) powi e < 2 powi (ilog2 x + 1)"
    using assms(2) ilog2_upper [OF assms(1)] by linarith
  then have a: "e < ilog2 x + 1"
    by (rule two_powi_less_cancel)
  have "(2::real) powi ilog2 x < 2 powi (e + 1)"
    using assms(3) ilog2_lower [OF assms(1)] by linarith
  then have b: "ilog2 x < e + 1"
    by (rule two_powi_less_cancel)
  from a b show ?thesis by simp
qed

lemma ilog2_ge:
  assumes "0 < x" and "2 powi k \<le> x"
  shows "k \<le> ilog2 x"
proof -
  have "(2::real) powi k < 2 powi (ilog2 x + 1)"
    using assms(2) ilog2_upper [OF assms(1)] by linarith
  then have "k < ilog2 x + 1"
    by (rule two_powi_less_cancel)
  then show ?thesis by simp
qed

lemma ilog2_less:
  assumes "0 < x" and "x < 2 powi k"
  shows "ilog2 x < k"
proof -
  have "(2::real) powi ilog2 x < 2 powi k"
    using assms(2) ilog2_lower [OF assms(1)] by linarith
  then show ?thesis
    by (rule two_powi_less_cancel)
qed

subsection \<open>Nearest integer\<close>

lemma round_even_of_int [simp]: "round_even (of_int n) = n"
  by (simp add: round_even_def)

lemma round_even_cases: "round_even y = \<lfloor>y\<rfloor> \<or> round_even y = \<lfloor>y\<rfloor> + 1"
  by (simp add: round_even_def Let_def)

lemma round_even_half: "\<bar>of_int (round_even y) - y\<bar> \<le> 1 / 2"
  unfolding round_even_def Let_def by (auto; linarith)

lemma round_even_nearest: "\<bar>of_int (round_even y) - y\<bar> \<le> \<bar>of_int n - y\<bar>"
proof (cases "n \<le> \<lfloor>y\<rfloor>")
  case True
  then have "real_of_int n \<le> real_of_int \<lfloor>y\<rfloor>" by (simp only: of_int_le_iff)
  then have "\<bar>of_int n - y\<bar> \<ge> y - of_int \<lfloor>y\<rfloor>" by linarith
  moreover have "\<bar>of_int (round_even y) - y\<bar> \<le> y - of_int \<lfloor>y\<rfloor>"
    unfolding round_even_def Let_def by (auto; linarith)
  ultimately show ?thesis by linarith
next
  case False
  then have "\<lfloor>y\<rfloor> + 1 \<le> n" by simp
  then have "real_of_int (\<lfloor>y\<rfloor> + 1) \<le> real_of_int n" by (simp only: of_int_le_iff)
  then have "\<bar>of_int n - y\<bar> \<ge> of_int \<lfloor>y\<rfloor> + 1 - y" by simp
  moreover have "\<bar>of_int (round_even y) - y\<bar> \<le> of_int \<lfloor>y\<rfloor> + 1 - y"
    unfolding round_even_def Let_def by (auto; linarith)
  ultimately show ?thesis by linarith
qed

lemma round_even_abs_le:
  assumes "\<bar>y\<bar> \<le> of_int N"
  shows "\<bar>round_even y\<bar> \<le> N"
proof -
  have "\<lfloor>y\<rfloor> \<le> round_even y" "round_even y \<le> \<lceil>y\<rceil>"
    unfolding round_even_def Let_def by (auto simp: ceiling_altdef) 
  moreover have "- N \<le> \<lfloor>y\<rfloor>" using assms by (simp add: le_floor_iff)
  moreover have "\<lceil>y\<rceil> \<le> N" using assms by (simp add: ceiling_le_iff)
  ultimately show ?thesis by linarith
qed

subsection \<open>Values that round to themselves\<close>

lemma rnd_zero [simp]: "rnd 0 = 0"
  by (simp add: rnd_def)

lemma ulp_exp_ge: "- 1074 \<le> ulp_exp x"
  by (simp add: ulp_exp_def)

lemma two_powi_diff_int:
  assumes "e \<le> j"
  shows "(2::real) powi j = of_int (2 ^ nat (j - e)) * 2 powi e"
proof -
  have "(2::real) powi j = 2 powi ((j - e) + e)" by simp
  also have "\<dots> = 2 powi (j - e) * 2 powi e"
    by (rule power_int_add) simp
  also have "(2::real) powi (j - e) = 2 ^ nat (j - e)"
    using assms by (simp add: power_int_nonneg_exp)
  finally show ?thesis by simp
qed

lemma rnd_exact:
  assumes "y = of_int n * 2 powi j" and "ulp_exp y \<le> j"
  shows "rnd y = y"
proof (cases "y = 0")
  case True
  then show ?thesis by simp
next
  case False
  let ?e = "ulp_exp y"
  have "y = of_int n * (of_int (2 ^ nat (j - ?e)) * 2 powi ?e)"
    using assms(1) two_powi_diff_int [OF assms(2)] by simp
  then have y: "y = of_int (n * 2 ^ nat (j - ?e)) * 2 powi ?e"
    by (simp add: mult.assoc)
  have "y / 2 powi ?e = of_int (n * 2 ^ nat (j - ?e))"
    by (subst y) simp
  then have "round_even (y / 2 powi ?e) = n * 2 ^ nat (j - ?e)"
    by (simp only: round_even_of_int)
  then have "rnd y = of_int (n * 2 ^ nat (j - ?e)) * 2 powi ?e"
    using False by (simp add: rnd_def)
  with y show ?thesis by simp
qed

lemma ulp_exp_le:
  assumes "y \<noteq> 0" and "\<bar>y\<bar> < 2 powi (j + 53)" and "- 1074 \<le> j"
  shows "ulp_exp y \<le> j"
proof -
  have "ilog2 \<bar>y\<bar> < j + 53"
    using assms(1,2) by (intro ilog2_less) simp_all
  with assms(3) show ?thesis
    by (simp add: ulp_exp_def)
qed

lemma rnd_exact_small:
  assumes "\<bar>n\<bar> < 2 ^ 53" and "- 1074 \<le> j"
  shows "rnd (of_int n * 2 powi j) = of_int n * 2 powi j"
proof (cases "n = 0")
  case True
  then show ?thesis by simp
next
  case False
  let ?y = "real_of_int n * 2 powi j"
  have "real_of_int \<bar>n\<bar> < real_of_int (2 ^ 53)"
    using assms(1) by (simp only: of_int_less_iff)
  then have "\<bar>real_of_int n\<bar> < 2 ^ 53" by simp
  then have "\<bar>real_of_int n\<bar> * 2 powi j < 2 ^ 53 * 2 powi j"
    by (simp add: mult_strict_right_mono)
  also have "\<dots> = 2 powi (j + 53)"
    by (simp add: power_int_add)
  finally have "\<bar>?y\<bar> < 2 powi (j + 53)"
    by (simp add: abs_mult)
  moreover have "?y \<noteq> 0" using False by simp
  ultimately have "ulp_exp ?y \<le> j"
    using assms(2) by (intro ulp_exp_le)
  then show ?thesis
    by (intro rnd_exact [of _ n j]) simp_all
qed

lemma rnd_exact_le:
  assumes "\<bar>n\<bar> \<le> 2 ^ 53" and "- 1074 \<le> j"
  shows "rnd (of_int n * 2 powi j) = of_int n * 2 powi j"
proof (cases "\<bar>n\<bar> < 2 ^ 53")
  case True
  then show ?thesis using assms(2) by (rule rnd_exact_small)
next
  case False
  then have n: "\<bar>n\<bar> = 2 ^ 53" using assms(1) by simp
  then have nn: "n = 2 ^ 53 \<or> n = - (2 ^ 53)" by linarith
  then have "n = 2 * (n div 2)" by auto
  then have "real_of_int n = 2 * real_of_int (n div 2)"
    by (metis of_int_mult of_int_numeral)
  then have "real_of_int n * 2 powi j = real_of_int (n div 2) * 2 powi (j + 1)"
    by (simp add: power_int_add)
  moreover have "\<bar>n div 2\<bar> < 2 ^ 53" using nn by auto
  then have "rnd (of_int (n div 2) * 2 powi (j + 1)) = of_int (n div 2) * 2 powi (j + 1)"
    using assms(2) by (intro rnd_exact_small) simp_all
  ultimately show ?thesis by simp
qed

lemma rnd_of_int:
  assumes "\<bar>n\<bar> \<le> 2 ^ 53"
  shows "rnd (of_int n) = of_int n"
  using rnd_exact_le [OF assms, of 0] by simp


text \<open>The scaled significand is below \<open>2 ^ 53\<close>.\<close>

lemma scaled_lt:
  assumes "x \<noteq> 0"
  shows "\<bar>x / 2 powi ulp_exp x\<bar> < 2 ^ 53"
proof -
  let ?k = "ilog2 \<bar>x\<bar>" and ?e = "ulp_exp x"
  have "\<bar>x\<bar> < 2 powi (?k + 1)"
    using assms by (intro ilog2_upper) simp
  also have "(2::real) powi (?k + 1) \<le> 2 powi (?e + 53)"
    by (rule power_int_increasing) (simp_all add: ulp_exp_def)
  also have "\<dots> = 2 ^ 53 * 2 powi ?e"
    by (simp add: power_int_add)
  finally have "\<bar>x\<bar> / 2 powi ?e < 2 ^ 53"
    by (simp add: pos_divide_less_eq)
  then show ?thesis by simp
qed

lemma rnd_form:
  assumes "x \<noteq> 0"
  shows "\<exists>m. rnd x = of_int m * 2 powi ulp_exp x \<and> \<bar>m\<bar> \<le> 2 ^ 53"
proof -
  let ?m = "round_even (x / 2 powi ulp_exp x)"
  have "\<bar>x / 2 powi ulp_exp x\<bar> \<le> real_of_int (2 ^ 53)"
    using scaled_lt [OF assms] by simp
  then have "\<bar>?m\<bar> \<le> 2 ^ 53"
    by (rule round_even_abs_le)
  moreover have "rnd x = of_int ?m * 2 powi ulp_exp x"
    using assms by (simp add: rnd_def)
  ultimately show ?thesis by blast
qed

lemma rnd_idem [simp]: "rnd (rnd x) = rnd x"
proof (cases "x = 0")
  case True
  then show ?thesis by simp
next
  case False
  then obtain m where m: "rnd x = of_int m * 2 powi ulp_exp x" "\<bar>m\<bar> \<le> 2 ^ 53"
    using rnd_form by blast
  show ?thesis
    unfolding m(1) using m(2) ulp_exp_ge by (rule rnd_exact_le)
qed

lemma is_double_rnd [simp]: "is_double (rnd x)"
  by (simp add: is_double_def)

lemma is_double_form:
  assumes "is_double z" and "z \<noteq> 0"
  shows "\<exists>m. z = of_int m * 2 powi ulp_exp z \<and> \<bar>m\<bar> \<le> 2 ^ 53"
  using rnd_form [OF assms(2)] assms(1) by (simp add: is_double_def)

subsection \<open>The rounded value is a nearest double; rounding is monotone\<close>

lemma abs_scale:
  fixes a x u :: real
  assumes "0 < u"
  shows "\<bar>a - x / u\<bar> * u = \<bar>a * u - x\<bar>"
proof -
  have "(a - x / u) * u = a * u - x"
    using assms by (simp add: field_simps)
  then have "\<bar>a * u - x\<bar> = \<bar>a - x / u\<bar> * \<bar>u\<bar>"
    by (metis abs_mult)
  with assms show ?thesis by simp
qed

lemma rnd_nearest_grid:
  assumes "x \<noteq> 0"
  shows "\<bar>rnd x - x\<bar> \<le> \<bar>of_int n * 2 powi ulp_exp x - x\<bar>"
proof -
  let ?u = "(2::real) powi ulp_exp x"
  let ?r = "round_even (x / ?u)"
  have u: "0 < ?u" by simp
  have "\<bar>of_int ?r - x / ?u\<bar> \<le> \<bar>of_int n - x / ?u\<bar>"
    by (rule round_even_nearest)
  then have "\<bar>of_int ?r - x / ?u\<bar> * ?u \<le> \<bar>of_int n - x / ?u\<bar> * ?u"
    using u by (simp add: mult_right_mono)
  moreover have "\<bar>of_int ?r - x / ?u\<bar> * ?u = \<bar>of_int ?r * ?u - x\<bar>"
    using u by (rule abs_scale)
  moreover have "\<bar>of_int n - x / ?u\<bar> * ?u = \<bar>of_int n * ?u - x\<bar>"
    using u by (rule abs_scale)
  moreover have "rnd x = of_int ?r * ?u"
    using assms by (simp add: rnd_def)
  ultimately show ?thesis by simp
qed

lemma is_double_grid:
  assumes "is_double z" and "e \<le> ulp_exp z"
  shows "\<exists>n. z = of_int n * 2 powi e"
proof (cases "z = 0")
  case True
  then have "z = of_int 0 * 2 powi e" by simp
  then show ?thesis by blast
next
  case False
  then obtain m where "z = of_int m * 2 powi ulp_exp z"
    using is_double_form [OF assms(1)] by blast
  then have "z = of_int m * (of_int (2 ^ nat (ulp_exp z - e)) * 2 powi e)"
    using two_powi_diff_int [OF assms(2)] by simp
  then have "z = of_int (m * 2 ^ nat (ulp_exp z - e)) * 2 powi e"
    by (simp add: mult.assoc)
  then show ?thesis by blast
qed

lemma rnd_nearest:
  assumes "is_double z"
  shows "\<bar>rnd x - x\<bar> \<le> \<bar>z - x\<bar>"
proof (cases "x = 0")
  case True
  then show ?thesis by simp
next
  case x: False
  let ?e = "ulp_exp x" and ?k = "ilog2 \<bar>x\<bar>"
  show ?thesis
  proof (cases "?e \<le> ulp_exp z \<or> z = 0")
    case True
    then have "\<exists>n. z = of_int n * 2 powi ?e"
    proof
      assume "?e \<le> ulp_exp z"
      with assms show ?thesis by (rule is_double_grid)
    next
      assume "z = 0"
      then have "z = of_int 0 * 2 powi ?e" by simp
      then show ?thesis by blast
    qed
    then obtain n where "z = of_int n * 2 powi ?e" by blast
    then show ?thesis
      using rnd_nearest_grid [OF x, of n] by simp
  next
    case False
    then have z: "z \<noteq> 0" and lt: "ulp_exp z < ?e" by simp_all
    have e: "?e = ?k - 52"
      using lt ulp_exp_ge [of z] by (auto simp: ulp_exp_def max_def split: if_splits)
    have "ilog2 \<bar>z\<bar> - 52 \<le> ulp_exp z"
      by (simp add: ulp_exp_def)
    then have "ilog2 \<bar>z\<bar> + 1 \<le> ?k"
      using lt e by simp
    then have "(2::real) powi (ilog2 \<bar>z\<bar> + 1) \<le> 2 powi ?k"
      by (intro power_int_increasing) simp_all
    moreover have "\<bar>z\<bar> < 2 powi (ilog2 \<bar>z\<bar> + 1)"
      using z by (intro ilog2_upper) simp
    ultimately have zk: "\<bar>z\<bar> < 2 powi ?k" by linarith
    have xk: "2 powi ?k \<le> \<bar>x\<bar>"
      using x by (intro ilog2_lower) simp
    have pk: "(2::real) powi ?k = of_int (2 ^ 52) * 2 powi ?e"
      using two_powi_diff_int [of ?e ?k] e by simp
    show ?thesis
    proof (cases "0 < x")
      case True
      have "\<bar>rnd x - x\<bar> \<le> \<bar>of_int (2 ^ 52) * 2 powi ?e - x\<bar>"
        by (rule rnd_nearest_grid [OF x])
      also have "\<dots> = \<bar>2 powi ?k - x\<bar>" by (simp only: pk)
      also have "\<dots> < \<bar>z - x\<bar>" using True zk xk by linarith
      finally show ?thesis by simp
    next
      case False
      have "\<bar>rnd x - x\<bar> \<le> \<bar>of_int (- (2 ^ 52)) * 2 powi ?e - x\<bar>"
        by (rule rnd_nearest_grid [OF x])
      also have "\<dots> = \<bar>- (2 powi ?k) - x\<bar>" by (simp only: pk of_int_minus mult_minus_left)
      also have "\<dots> < \<bar>z - x\<bar>" using False x zk xk by linarith
      finally show ?thesis by simp
    qed
  qed
qed

lemma rnd_mono:
  assumes "x \<le> y"
  shows "rnd x \<le> rnd y"
proof (rule ccontr)
  assume "\<not> rnd x \<le> rnd y"
  then have lt: "rnd y < rnd x" by simp
  have a: "\<bar>rnd x - x\<bar> \<le> \<bar>rnd y - x\<bar>"
    by (rule rnd_nearest) simp
  have b: "\<bar>rnd y - y\<bar> \<le> \<bar>rnd x - y\<bar>"
    by (rule rnd_nearest) simp
  from a b lt assms have "x = y" by linarith
  with lt show False by simp
qed

lemma rnd_le:
  assumes "x \<le> z" and "is_double z"
  shows "rnd x \<le> z"
  using rnd_mono [OF assms(1)] assms(2) by (simp add: is_double_def)

lemma rnd_ge:
  assumes "z \<le> x" and "is_double z"
  shows "z \<le> rnd x"
  using rnd_mono [OF assms(1)] assms(2) by (simp add: is_double_def)

lemma rnd_nonneg: "0 \<le> x \<Longrightarrow> 0 \<le> rnd x"
  using rnd_mono [of 0 x] by simp

lemma rnd_nonpos: "x \<le> 0 \<Longrightarrow> rnd x \<le> 0"
  using rnd_mono [of x 0] by simp

section \<open>Facts about the numeric conversions\<close>

lemma is_double_of_int: "\<bar>n\<bar> \<le> 2 ^ 53 \<Longrightarrow> is_double (of_int n)"
  by (simp add: is_double_def rnd_of_int)

lemma is_double_numerals [simp]: "is_double 0" "is_double 1" "is_double 2" "is_double (- 1)"
  using is_double_of_int [of 0] is_double_of_int [of 1] is_double_of_int [of 2]
    is_double_of_int [of "- 1"] by simp_all


lemma u64_to_double_nonneg: "0 \<le> u64_to_double n"
  unfolding u64_to_double_def by (rule rnd_nonneg) (rule of_nat_0_le_iff)



lemma is_double_u64 [simp]: "is_double (u64_to_double n)"
  by (simp add: u64_to_double_def)

lemma u64_to_double_mono:
  assumes "m \<le> n"
  shows "u64_to_double m \<le> u64_to_double n"
proof -
  have "unat m \<le> unat n"
    using assms by (simp add: word_le_nat_alt)
  then have "real (unat m) \<le> real (unat n)"
    by (simp only: of_nat_le_iff)
  then show ?thesis
    unfolding u64_to_double_def by (rule rnd_mono)
qed

lemma u64_to_double_exact:
  assumes "unat n \<le> 2 ^ 53"
  shows "u64_to_double n = real (unat n)"
proof -
  have "int (unat n) \<le> 2 ^ 53"
    using assms by (metis of_nat_le_iff of_nat_numeral of_nat_power)
  then have "rnd (of_int (int (unat n))) = of_int (int (unat n))"
    by (intro rnd_of_int) simp
  then show ?thesis
    by (simp only: u64_to_double_def of_int_of_nat_eq)
qed

lemma u64_to_double_zero [simp]: "u64_to_double 0 = 0"
  by (simp add: u64_to_double_def)

lemma u64_to_double_ge_1:
  assumes "0 < n"
  shows "1 \<le> u64_to_double n"
proof -
  have "0 < unat n"
    using assms by (simp add: unat_gt_0 word_gt_0)
  then have "1 \<le> real (unat n)"
    by (metis One_nat_def Suc_leI of_nat_1 of_nat_le_iff)
  then show ?thesis
    unfolding u64_to_double_def by (rule rnd_ge) simp
qed

text \<open>Halving a double that is zero or at least 1 loses nothing.\<close>

lemma rnd_half:
  assumes "is_double x" and "x = 0 \<or> 1 \<le> x"
  shows "rnd (x / 2) = x / 2"
proof (cases "x = 0")
  case True
  then show ?thesis by simp
next
  case False
  then have x: "1 \<le> x" using assms(2) by simp
  obtain m where m: "x = of_int m * 2 powi ulp_exp x" "\<bar>m\<bar> \<le> 2 ^ 53"
    using is_double_form [OF assms(1) False] by blast
  have "0 \<le> ilog2 \<bar>x\<bar>"
    using x by (intro ilog2_ge) simp_all
  then have e: "- 52 \<le> ulp_exp x"
    by (simp add: ulp_exp_def)
  have "(2::real) powi ulp_exp x = 2 powi ((ulp_exp x - 1) + 1)" by simp
  also have "\<dots> = 2 powi (ulp_exp x - 1) * 2"
    by (subst power_int_add) simp_all
  finally have h: "x / 2 = of_int m * 2 powi (ulp_exp x - 1)"
    using m(1) by simp
  have "rnd (of_int m * 2 powi (ulp_exp x - 1)) = of_int m * 2 powi (ulp_exp x - 1)"
    using m(2) e by (intro rnd_exact_le) simp_all
  then show ?thesis by (simp only: h)
qed

lemma half_width_eq: "half_width s = u64_to_double (width s) / 2"
proof -
  have "u64_to_double (width s) = 0 \<or> 1 \<le> u64_to_double (width s)"
    using u64_to_double_ge_1 [of "width s"] by (cases "width s = 0") (simp_all add: word_gt_0)
  then show ?thesis
    unfolding half_width_def fdiv_def by (intro rnd_half) simp_all
qed

lemma half_height_eq: "half_height s = u64_to_double (height s) / 2"
proof -
  have "u64_to_double (height s) = 0 \<or> 1 \<le> u64_to_double (height s)"
    using u64_to_double_ge_1 [of "height s"] by (cases "height s = 0") (simp_all add: word_gt_0)
  then show ?thesis
    unfolding half_height_def fdiv_def by (intro rnd_half) simp_all
qed


lemma half_width_nonneg: "0 \<le> half_width s"
  by (simp add: half_width_eq u64_to_double_nonneg)

lemma half_width_pos:
  assumes "0 < width s"
  shows "0 < half_width s"
  using u64_to_double_ge_1 [OF assms] by (simp add: half_width_eq)






lemma trunc_toward_zero_bounds:
  "\<bar>of_int (trunc_toward_zero x)\<bar> \<le> \<bar>x\<bar> \<and> \<bar>x - of_int (trunc_toward_zero x)\<bar> < 1"
proof (cases "0 \<le> x")
  case True
  then have "trunc_toward_zero x = \<lfloor>x\<rfloor>"
    by (simp add: trunc_toward_zero_def)
  with True show ?thesis by (simp; linarith)
next
  case False
  then have "trunc_toward_zero x = \<lceil>x\<rceil>"
    by (simp add: trunc_toward_zero_def)
  with False show ?thesis by (simp; linarith)
qed







lemma rnd_eval:
  assumes "2 powi k \<le> \<bar>x\<bar>" and "\<bar>x\<bar> < 2 powi (k + 1)"
  shows "rnd x = of_int (round_even (x / 2 powi max (k - 52) (- 1074)))
                   * 2 powi max (k - 52) (- 1074)"
proof -
  have "0 < (2::real) powi k" by simp
  with assms(1) have x: "0 < \<bar>x\<bar>" by linarith
  then have "ilog2 \<bar>x\<bar> = k"
    using assms by (intro ilog2_unique)
  with x show ?thesis
    by (simp add: rnd_def ulp_exp_def)
qed

lemma rnd_numeral:
  assumes "\<bar>numeral n :: int\<bar> \<le> 2 ^ 53"
  shows "rnd (numeral n) = numeral n"
  using rnd_of_int [OF assms] by simp

lemma rnd_one [simp]: "rnd 1 = 1"
  using rnd_of_int [of 1] by simp

lemma rnd_three_quarters: "rnd (3 / 4) = 3 / 4"
  using rnd_exact_le [of 3 "- 2"] by simp

lemma rnd_320_75: "rnd (1283 / 4) = 1283 / 4"
  using rnd_exact_le [of 1283 "- 2"] by simp

lemma rnd_sixteenth: "rnd (1 / 16) = 1 / 16"
  using rnd_exact_le [of 1 "- 4"] by simp

text \<open>
  Roundings that are not exact: the largest pixel count, a halfway case, the fraction
  \<open>1 / 20\<close>, and the product of the \<^verbatim>\<open>double\<close> nearest to it with 320.
\<close>

lemma rnd_max_u64: "rnd 18446744073709551615 = 18446744073709551616"
  using rnd_eval [of 63 18446744073709551615]
  by (simp add: round_even_def Let_def)


lemma rnd_twentieth: "rnd (1 / 20) = 3602879701896397 / 72057594037927936"
  using rnd_eval [of "- 5" "1 / 20"]
  by (simp add: round_even_def Let_def)

lemma rnd_twentieth_times_320:
  "rnd (18014398509481985 / 1125899906842624) = 16"
  using rnd_eval [of 4 "18014398509481985 / 1125899906842624"]
  by (simp add: round_even_def Let_def)

lemma u64_to_double_max: "u64_to_double 18446744073709551615 = 18446744073709551616"
  by (simp add: u64_to_double_def rnd_max_u64)

section \<open>Image size and pixel index\<close>

text \<open>
  C8. For every image size, also one with width or height 0, \<open>half_width\<close> is the
  width converted to \<^verbatim>\<open>double\<close> and divided by two, \<open>half_height\<close> the same for the
  height; the division by two is exact. For a count of at most \<open>2 ^ 53\<close> the conversion
  is exact too, so the result is exactly half the count; a zero width (height) gives
  exactly 0. Both accessors are total functions with no error value: the source has no
  failing path, it divides by the constant 2.
\<close>

theorem half_width_height_value:
  "half_width s = u64_to_double (width s) / 2 \<and>
   half_height s = u64_to_double (height s) / 2 \<and>
   (unat (width s) \<le> 2 ^ 53 \<longrightarrow> half_width s = real (unat (width s)) / 2) \<and>
   (unat (height s) \<le> 2 ^ 53 \<longrightarrow> half_height s = real (unat (height s)) / 2) \<and>
   (width s = 0 \<longrightarrow> half_width s = 0) \<and>
   (height s = 0 \<longrightarrow> half_height s = 0)"
  by (simp add: half_width_eq half_height_eq u64_to_double_exact del: of_nat_unat)

theorem half_width_height_value_witness:
  "width \<lparr>width = 0, height = 1080\<rparr> = 0 \<and>
   unat (height \<lparr>width = 0, height = 1080\<rparr>) \<le> 2 ^ 53 \<and>
   half_width \<lparr>width = 0, height = 1080\<rparr> = 0 \<and>
   half_height \<lparr>width = 0, height = 1080\<rparr> = 540 \<and>
   height \<lparr>width = 1920, height = 0\<rparr> = 0 \<and>
   unat (width \<lparr>width = 1920, height = 0\<rparr>) \<le> 2 ^ 53 \<and>
   half_width \<lparr>width = 1920, height = 0\<rparr> = 960 \<and>
   half_height \<lparr>width = 1920, height = 0\<rparr> = 0 \<and>
   half_width \<lparr>width = 18446744073709551615, height = 0\<rparr> = 9223372036854775808"
  using half_width_height_value [of "\<lparr>width = 0, height = 1080\<rparr>"]
    half_width_height_value [of "\<lparr>width = 1920, height = 0\<rparr>"]
    half_width_height_value [of "\<lparr>width = 18446744073709551615, height = 0\<rparr>"]
  by (simp add: u64_to_double_max)

text \<open>
  C7, as stated. The claim puts \<open>normalized\<close> in \<open>[-1, 1]\<close> for every pixel index
  and every image of positive width. The function is the affine map \<open>v / half_width - 1\<close>
  with no clamp, so a pixel index beyond the width leaves the interval: index 100 in an
  image 10 wide has the normalized coordinate 19.
\<close>

theorem normalized_range_counterexample:
  "0 < width \<lparr>width = 10, height = 10\<rparr> \<and>
   \<not> (- 1 \<le> normalized (PixelIndex 100) \<lparr>width = 10, height = 10\<rparr> \<and>
      normalized (PixelIndex 100) \<lparr>width = 10, height = 10\<rparr> \<le> 1)"
  by (simp add: normalized_def half_width_eq u64_to_double_def fsub_def fdiv_def rnd_numeral)

text \<open>
  C7, amended. For every image size with width > 0 and every pixel index whose value is
  at most the width, \<open>normalized\<close> lies in the interval \<open>[-1, 1]\<close>.
\<close>

theorem normalized_range:
  assumes "0 < width image_size" and "pixel_value p \<le> width image_size"
  shows "- 1 \<le> normalized p image_size \<and> normalized p image_size \<le> 1"
proof -
  let ?q = "fdiv (u64_to_double (pixel_value p)) (half_width image_size)"
  have h: "0 < half_width image_size"
    by (rule half_width_pos [OF assms(1)])
  have "u64_to_double (pixel_value p) \<le> u64_to_double (width image_size)"
    using assms(2) by (rule u64_to_double_mono)
  then have "u64_to_double (pixel_value p) \<le> 2 * half_width image_size"
    by (simp add: half_width_eq)
  then have "u64_to_double (pixel_value p) / half_width image_size \<le> 2"
    using h by (simp add: pos_divide_le_eq)
  then have q2: "?q \<le> 2"
    unfolding fdiv_def by (rule rnd_le) simp
  have "0 \<le> u64_to_double (pixel_value p) / half_width image_size"
    using h u64_to_double_nonneg [of "pixel_value p"] by simp
  then have q0: "0 \<le> ?q"
    unfolding fdiv_def by (rule rnd_nonneg)
  have "rnd (?q - 1) \<le> 1"
    using q2 by (intro rnd_le) simp_all
  moreover have "- 1 \<le> rnd (?q - 1)"
    using q0 by (intro rnd_ge) simp_all
  ultimately show ?thesis
    by (simp add: normalized_def fsub_def)
qed

theorem normalized_range_witness:
  "0 < width \<lparr>width = 10, height = 10\<rparr> \<and>
   pixel_value (PixelIndex 10) \<le> width \<lparr>width = 10, height = 10\<rparr> \<and>
   - 1 \<le> normalized (PixelIndex 10) \<lparr>width = 10, height = 10\<rparr> \<and>
   normalized (PixelIndex 10) \<lparr>width = 10, height = 10\<rparr> \<le> 1"
  using normalized_range [of "\<lparr>width = 10, height = 10\<rparr>" "PixelIndex 10"]
  by simp

section \<open>Conversion through the field of view\<close>





section \<open>Conversion through the linear scale\<close>

text \<open>
  C3. Clipping dead zone: for every pixel index, image size, scale and threshold,
  \<open>pixel_tan_by_pixel_2_tan_clipped\<close> returns exactly 0 when
  \<open>\<bar>pixel value - half_width\<bar> < threshold * half_width\<close>, the difference and the
  product being the \<^verbatim>\<open>double\<close>s the code compares; otherwise it returns what
  \<open>pixel_tan_by_pixel_2_tan\<close> returns on the same arguments, the unclipped linear
  value \<open>(pixel value - half_width) * pixel_2_tan\<close> (named as a number where the
  product does not overflow).
\<close>

theorem clipped_dead_zone:
  "(\<bar>fsub (u64_to_double (pixel_value pixel)) (half_width image_size)\<bar>
       < fmul threshold (half_width image_size) \<longrightarrow>
     pixel_tan_by_pixel_2_tan_clipped pixel image_size pixel_2_tan threshold = 0) \<and>
   (\<not> \<bar>fsub (u64_to_double (pixel_value pixel)) (half_width image_size)\<bar>
       < fmul threshold (half_width image_size) \<longrightarrow>
     pixel_tan_by_pixel_2_tan_clipped pixel image_size pixel_2_tan threshold
       = pixel_tan_by_pixel_2_tan pixel image_size pixel_2_tan \<and>
     (\<bar>fmul (fsub (u64_to_double (pixel_value pixel)) (half_width image_size)) pixel_2_tan\<bar>
        < 2 ^ 1024 \<longrightarrow>
      pixel_tan_by_pixel_2_tan_clipped pixel image_size pixel_2_tan threshold
        = fmul (fsub (u64_to_double (pixel_value pixel)) (half_width image_size))
            pixel_2_tan))"
  by (simp add: pixel_tan_by_pixel_2_tan_clipped_def pixel_tan_by_pixel_2_tan_def)

text \<open>
  At pixel 330 of 640 with the threshold \<open>1 / 16\<close> the difference 10 is below the
  product 20. At pixel 336 with the \<^verbatim>\<open>double\<close> nearest to 0.05 as threshold, the exact
  product lies just above 16 and rounds to 16, so the difference 16 is not below it and
  the value is the unclipped one.
\<close>

theorem clipped_dead_zone_witness:
  "\<bar>fsub (u64_to_double (pixel_value (PixelIndex 330))) (half_width \<lparr>width = 640, height = 480\<rparr>)\<bar>
     < fmul (1 / 16) (half_width \<lparr>width = 640, height = 480\<rparr>) \<and>
   pixel_tan_by_pixel_2_tan_clipped (PixelIndex 330) \<lparr>width = 640, height = 480\<rparr>
     (1 / 256) (1 / 16) = 0 \<and>
   \<not> \<bar>fsub (u64_to_double (pixel_value (PixelIndex 336))) (half_width \<lparr>width = 640, height = 480\<rparr>)\<bar>
     < fmul (3602879701896397 / 72057594037927936) (half_width \<lparr>width = 640, height = 480\<rparr>) \<and>
   \<bar>fmul (fsub (u64_to_double (pixel_value (PixelIndex 336)))
       (half_width \<lparr>width = 640, height = 480\<rparr>)) (1 / 256)\<bar> < 2 ^ 1024 \<and>
   pixel_tan_by_pixel_2_tan_clipped (PixelIndex 336) \<lparr>width = 640, height = 480\<rparr>
     (1 / 256) (3602879701896397 / 72057594037927936) = 1 / 16 \<and>
   pixel_tan_by_pixel_2_tan (PixelIndex 336) \<lparr>width = 640, height = 480\<rparr> (1 / 256) = 1 / 16"
  using clipped_dead_zone
      [of "PixelIndex 330" "\<lparr>width = 640, height = 480\<rparr>" "1 / 16" "1 / 256"]
    clipped_dead_zone
      [of "PixelIndex 336" "\<lparr>width = 640, height = 480\<rparr>"
        "3602879701896397 / 72057594037927936" "1 / 256"]
  by (simp add: half_width_eq u64_to_double_def fsub_def fmul_def rnd_numeral rnd_sixteenth
      rnd_twentieth_times_320)

text \<open>
  C10. For every pixel index, image size and scale, and every clipping threshold that is
  not positive, the dead zone is empty: \<open>\<bar>pixel value - half_width\<bar>\<close> is never strictly
  below \<open>threshold * half_width\<close>, neither as exact numbers nor as the \<^verbatim>\<open>double\<close>s the
  code compares, and \<open>pixel_tan_by_pixel_2_tan_clipped\<close> returns what
  \<open>pixel_tan_by_pixel_2_tan\<close> returns.
\<close>

theorem nonpositive_threshold_no_dead_zone:
  assumes "clipping_threshold \<le> 0"
  shows "\<not> \<bar>u64_to_double (pixel_value pixel) - half_width image_size\<bar>
             < clipping_threshold * half_width image_size \<and>
         pixel_tan_by_pixel_2_tan_clipped pixel image_size pixel_2_tan clipping_threshold
           = pixel_tan_by_pixel_2_tan pixel image_size pixel_2_tan \<and>
         \<not> \<bar>fsub (u64_to_double (pixel_value pixel)) (half_width image_size)\<bar>
             < fmul clipping_threshold (half_width image_size)"
proof -
  have p: "clipping_threshold * half_width image_size \<le> 0"
    using assms half_width_nonneg [of image_size] by (rule mult_nonpos_nonneg)
  then have a: "\<not> \<bar>u64_to_double (pixel_value pixel) - half_width image_size\<bar>
             < clipping_threshold * half_width image_size"
    by linarith
  have "fmul clipping_threshold (half_width image_size) \<le> 0"
    unfolding fmul_def using p by (rule rnd_nonpos)
  then have b: "\<not> \<bar>fsub (u64_to_double (pixel_value pixel)) (half_width image_size)\<bar>
             < fmul clipping_threshold (half_width image_size)"
    by linarith
  from b have "pixel_tan_by_pixel_2_tan_clipped pixel image_size pixel_2_tan clipping_threshold
           = pixel_tan_by_pixel_2_tan pixel image_size pixel_2_tan"
    by (simp add: pixel_tan_by_pixel_2_tan_clipped_def pixel_tan_by_pixel_2_tan_def)
  with a b show ?thesis by blast
qed

theorem nonpositive_threshold_no_dead_zone_witness:
  "(0 :: real) \<le> 0 \<and> (- 1 / 16 :: real) \<le> 0 \<and>
   pixel_tan_by_pixel_2_tan_clipped (PixelIndex 320) \<lparr>width = 640, height = 480\<rparr> (1 / 256) 0
     = pixel_tan_by_pixel_2_tan (PixelIndex 320) \<lparr>width = 640, height = 480\<rparr> (1 / 256) \<and>
   pixel_tan_by_pixel_2_tan_clipped (PixelIndex 336) \<lparr>width = 640, height = 480\<rparr> (1 / 256)
       (- 1 / 16)
     = 1 / 16"
  using nonpositive_threshold_no_dead_zone
      [of 0 "PixelIndex 320" "\<lparr>width = 640, height = 480\<rparr>" "1 / 256"]
    nonpositive_threshold_no_dead_zone
      [of "- 1 / 16" "PixelIndex 336" "\<lparr>width = 640, height = 480\<rparr>" "1 / 256"]
  by (simp add: pixel_tan_by_pixel_2_tan_def half_width_eq u64_to_double_def fsub_def fmul_def
      rnd_numeral rnd_sixteenth)

text \<open>
  C9. For every tangent value, image size and nonzero scale,
  \<open>tan_2_pixel_by_pixel_2_tan\<close> with \<open>round_back\<close> true returns the same pixel index as
  \<open>angle_tan_to_pixel\<close>.
\<close>

theorem round_back_coincides:
  assumes "pixel_2_tan \<noteq> 0"
  shows "tan_2_pixel_by_pixel_2_tan t image_size pixel_2_tan True
           = angle_tan_to_pixel t image_size pixel_2_tan"
  by (simp add: tan_2_pixel_by_pixel_2_tan_def angle_tan_to_pixel_def)

theorem round_back_coincides_witness:
  "(1 / 256 :: real) \<noteq> 0 \<and>
   tan_2_pixel_by_pixel_2_tan (Radians (3 / 1024)) \<lparr>width = 640, height = 480\<rparr> (1 / 256) True
     = angle_tan_to_pixel (Radians (3 / 1024)) \<lparr>width = 640, height = 480\<rparr> (1 / 256) \<and>
   angle_tan_to_pixel (Radians (3 / 1024)) \<lparr>width = 640, height = 480\<rparr> (1 / 256)
     = PixelIndex 321"
  using round_back_coincides
    [of "1 / 256" "Radians (3 / 1024)" "\<lparr>width = 640, height = 480\<rparr>"]
  by (simp add: angle_tan_to_pixel_def half_width_eq u64_to_double_def fadd_def fdiv_def
      rnd_numeral rnd_three_quarters rnd_320_75 std_round_def double_to_u64_def
      trunc_toward_zero_def)




end
